theory Spec2Isabelle
  imports Main "HOL-Library.Word"
begin

section \<open>The ARP endpoint (package arp)\<close>

subsection \<open>Data\<close>

type_synonym byte = "8 word"
type_synonym uint16 = "16 word"
type_synonym uint32 = "32 word"

text \<open>\<^verbatim>\<open>tcpip.Address\<close> and \<^verbatim>\<open>tcpip.LinkAddress\<close> are Go strings: byte sequences.
  \<^verbatim>\<open>tcpip.NICID\<close> is a 32-bit integer, used only as a key and compared with 0.\<close>

type_synonym Address = "byte list"
type_synonym LinkAddress = "byte list"
type_synonym NICID = "32 word"

text \<open>Modelled from the spec: \<^verbatim>\<open>header.ARPOp\<close>, whose declaration is in package header.
  The operation code of a frame is Request, Reply, or some other 16-bit value.\<close>

datatype ARPOp = ARPRequest | ARPReply | ARPOther nat

text \<open>Modelled from the spec: \<^verbatim>\<open>header.ARP\<close>, a byte view whose accessors live in package
  header. A view is represented by what the accessors read from it: the result of
  \<^verbatim>\<open>IsValid()\<close> (structural validity: size and fixed fields), the operation code, and
  the four address fields, which are disjoint regions of the buffer. \<^verbatim>\<open>SetOp\<close> and
  \<^verbatim>\<open>copy\<close> into an address field write the buffer in place, which is a record update.
  What the accessors do on a view too short to hold a field is decided in package
  header and is outside this representation.\<close>

record ARP =
  IsValid :: bool
  Op :: ARPOp
  HardwareAddressSender :: "byte list"
  ProtocolAddressSender :: "byte list"
  HardwareAddressTarget :: "byte list"
  ProtocolAddressTarget :: "byte list"

text \<open>Go's builtin \<^verbatim>\<open>copy(dst, src)\<close> overwrites the first
  \<open>min (length dst) (length src)\<close> bytes of \<open>dst\<close> and keeps its length.\<close>

definition copy :: "byte list \<Rightarrow> byte list \<Rightarrow> byte list" where
  "copy dst src = take (length dst) src @ drop (length src) dst"

text \<open>Of \<^verbatim>\<open>stack.Route\<close> the endpoint reads only \<^verbatim>\<open>LocalLinkAddress\<close>.\<close>

record Route =
  LocalLinkAddress :: LinkAddress

text \<open>\<^verbatim>\<open>stack.LinkEndpoint\<close> is an interface; the endpoint reads its \<^verbatim>\<open>MTU()\<close> and
  \<^verbatim>\<open>MaxHeaderLength()\<close> and calls its \<^verbatim>\<open>WritePacket\<close>. The two numbers are fields
  here, the calls of \<^verbatim>\<open>WritePacket\<close> are logged in the world below.\<close>

record LinkEndpoint =
  linkMTU :: uint32
  linkMaxHeaderLength :: uint16

datatype NetworkProtocolNumber = ProtocolNumber

record LinkWrite =
  wRoute :: Route
  wHeaderRoom :: nat
  wPayload :: ARP
  wProtocol :: NetworkProtocolNumber

datatype error = ErrTimeout

text \<open>A Go call either returns or panics.\<close>

datatype 'a outcome = Returns 'a | Panics string

type_synonym chan = nat

text \<open>Everything the code shares and mutates: the stack's address registry and link-address
  cache, the packets handed to the link endpoint, and the state closed over by
  \<^verbatim>\<open>NewLinkAddressLookup\<close> (the waiter registry \<^verbatim>\<open>wait\<close>, a Go map from channel to
  address, kept as an association list with distinct keys). Unbuffered channels are
  represented by the set of channels a goroutine is blocked receiving on and by the value
  handed to each receiver. The clock counts nanoseconds.\<close>

text \<open>Modelled from the spec: \<^verbatim>\<open>Stack.CheckLocalAddress\<close>, a method of package stack, is
  the field \<open>CheckLocalAddress\<close>: the interface that owns an address, 0 when none does.\<close>

record world =
  CheckLocalAddress :: "NICID \<Rightarrow> Address \<Rightarrow> NICID"
  linkAddrCache :: "NICID \<times> Address \<rightharpoonup> LinkAddress"
  written :: "LinkWrite list"
  wait :: "(chan \<times> Address) list"
  next_chan :: chan
  receiving :: "chan set"
  delivered :: "chan \<rightharpoonup> LinkAddress"
  clock :: nat

text \<open>Modelled from the spec: \<^verbatim>\<open>Stack.AddLinkAddrCache\<close>, a method of package stack. The
  cache has at most one entry per interface and protocol address, and the last write
  wins.\<close>

definition AddLinkAddrCache :: "NICID \<Rightarrow> Address \<Rightarrow> LinkAddress \<Rightarrow> world \<Rightarrow> world" where
  "AddLinkAddrCache nic addr linkAddr w =
     w\<lparr>linkAddrCache := (linkAddrCache w)((nic, addr) \<mapsto> linkAddr)\<rparr>"

record endpoint =
  nicid :: NICID
  linkEP :: LinkEndpoint
  handler :: "(Route \<Rightarrow> ARP \<Rightarrow> world \<Rightarrow> bool \<times> world) option"

subsection \<open>Sizes\<close>

text \<open>\<^verbatim>\<open>header.ARPSize\<close> is a constant of package header; it is the parameter \<open>ARPSize\<close>.
  Added to a \<^verbatim>\<open>uint16\<close> it is a \<^verbatim>\<open>uint16\<close>.\<close>

definition MaxHeaderLength :: "uint16 \<Rightarrow> endpoint \<Rightarrow> uint16" where
  "MaxHeaderLength ARPSize e = linkMaxHeaderLength (linkEP e) + ARPSize"

definition MTU :: "uint16 \<Rightarrow> endpoint \<Rightarrow> uint32" where
  "MTU ARPSize e = (let lmtu = linkMTU (linkEP e) in lmtu - ucast (MaxHeaderLength ARPSize e))"

subsection \<open>Sending and receiving\<close>

definition WritePacket ::
    "endpoint \<Rightarrow> Route \<Rightarrow> nat \<Rightarrow> byte list \<Rightarrow> nat \<Rightarrow> world \<Rightarrow> (error option \<times> world) outcome" where
  "WritePacket e r hdr payload protocol w = Panics ''arp.WritePacket TODO''"

text \<open>\<^verbatim>\<open>linkEP.WritePacket\<close> belongs to the link endpoint; the call is recorded.\<close>

definition linkEP_WritePacket :: "Route \<Rightarrow> nat \<Rightarrow> ARP \<Rightarrow> NetworkProtocolNumber \<Rightarrow> world \<Rightarrow> world" where
  "linkEP_WritePacket r hdr v p w =
     w\<lparr>written := written w @ [\<lparr>wRoute = r, wHeaderRoom = hdr, wPayload = v, wProtocol = p\<rparr>]\<rparr>"

text \<open>\<^verbatim>\<open>HandlePacket\<close> writes the view in place, so the view is returned with the world.
  The secondary handler only reads the view.\<close>

definition HandlePacket :: "endpoint \<Rightarrow> Route \<Rightarrow> ARP \<Rightarrow> world \<Rightarrow> ARP \<times> world" where
  "HandlePacket e r v w =
     (let h = v in
      if \<not> IsValid h then (v, w)
      else
        let localAddr = ProtocolAddressTarget h;
            nic = CheckLocalAddress w 0 localAddr
        in
          if nic = 0 then (v, w)
          else
            let (v', w') =
                  (if Op h = ARPRequest then
                     let h1 = h\<lparr>Op := ARPReply\<rparr>;
                         h2 = h1\<lparr>HardwareAddressSender :=
                                  copy (HardwareAddressSender h1) (LocalLinkAddress r)\<rparr>;
                         h3 = h2\<lparr>ProtocolAddressSender :=
                                  copy (ProtocolAddressSender h2) (ProtocolAddressTarget h2)\<rparr>;
                         hdr = unat (linkMaxHeaderLength (linkEP e))
                     in (h3, linkEP_WritePacket r hdr h3 ProtocolNumber w)
                   else (h, w))
            in (case handler e of
                  None \<Rightarrow> (v', w')
                | Some f \<Rightarrow> (v', snd (f r v' w'))))"

subsection \<open>The address-resolution subsystem (NewLinkAddressLookup)\<close>

text \<open>The handler's \<^verbatim>\<open>select { case ch <- linkAddr: default: }\<close> on an unbuffered channel:
  the send happens only when a receiver is blocked on \<open>ch\<close> at that moment; otherwise
  the value is dropped.\<close>

definition try_send :: "chan \<Rightarrow> LinkAddress \<Rightarrow> world \<Rightarrow> world" where
  "try_send ch linkAddr w =
     (if ch \<in> receiving w
      then w\<lparr>receiving := receiving w - {ch}, delivered := (delivered w)(ch \<mapsto> linkAddr)\<rparr>
      else w)"

text \<open>\<^verbatim>\<open>delete(wait, ch)\<close>.\<close>

definition delete_wait :: "chan \<Rightarrow> world \<Rightarrow> world" where
  "delete_wait ch w = w\<lparr>wait := filter (\<lambda>(c, a). c \<noteq> ch) (wait w)\<rparr>"

text \<open>The loop \<^verbatim>\<open>for ch, chAddr := range wait\<close> of the handler, over the entries the
  registry holds when the loop starts. Go fixes no order for a map; each step touches
  only its own channel.\<close>

fun notify :: "Address \<Rightarrow> LinkAddress \<Rightarrow> (chan \<times> Address) list \<Rightarrow> world \<Rightarrow> world" where
  "notify addr linkAddr [] w = w"
| "notify addr linkAddr ((ch, chAddr) # rest) w =
     notify addr linkAddr rest
       (if addr = chAddr then delete_wait ch (try_send ch linkAddr w) else w)"

text \<open>The function that \<^verbatim>\<open>NewLinkAddressLookup\<close> installs with
  \<^verbatim>\<open>SetNetworkProtocolHandler\<close>. Its diagnostic print is not part of the state.\<close>

definition protocolHandler :: "Route \<Rightarrow> ARP \<Rightarrow> world \<Rightarrow> bool \<times> world" where
  "protocolHandler r v w =
     (let h = v;
          localAddr = ProtocolAddressTarget h;
          nic = CheckLocalAddress w 0 localAddr;
          addr = ProtocolAddressSender h;
          linkAddr = HardwareAddressSender h;
          w1 = AddLinkAddrCache nic addr linkAddr w
      in if Op h \<noteq> ARPReply then (False, w1)
         else (False, notify addr linkAddr (wait w1) w1))"

text \<open>\<^verbatim>\<open>time.Second\<close>, in nanoseconds.\<close>

definition Second :: nat where
  "Second = 1000000000"

text \<open>The function that \<^verbatim>\<open>NewLinkAddressLookup\<close> returns, in the two steps between which
  other goroutines run. \<open>lookup_begin\<close> is everything up to the \<^verbatim>\<open>select\<close>: it makes
  the channel and starts receiving on it. \<open>lookup_select\<close> is the \<^verbatim>\<open>select\<close>: the
  value handed to the channel if there is one, otherwise the timer's branch after
  \<open>15 * Second\<close>. The statement after the \<^verbatim>\<open>select\<close> is unreachable, and the
  diagnostic print is not part of the state.\<close>

definition lookup_begin :: "Address \<Rightarrow> world \<Rightarrow> chan \<times> world" where
  "lookup_begin addr w =
     (let ch = next_chan w
      in (ch, w\<lparr>next_chan := Suc ch, receiving := insert ch (receiving w)\<rparr>))"

definition lookup_select :: "chan \<Rightarrow> world \<Rightarrow> (error + LinkAddress) \<times> world" where
  "lookup_select ch w =
     (case delivered w ch of
        Some res \<Rightarrow> (Inr res, w)
      | None \<Rightarrow>
          (let w1 = w\<lparr>clock := clock w + 15 * Second, receiving := receiving w - {ch}\<rparr>
           in (Inl ErrTimeout, delete_wait ch w1)))"

text \<open>One call; \<open>env\<close> is what the rest of the program does to the world while the caller
  is blocked.\<close>

definition LinkAddressLookup ::
    "(world \<Rightarrow> world) \<Rightarrow> Address \<Rightarrow> world \<Rightarrow> (error + LinkAddress) \<times> world" where
  "LinkAddressLookup env addr w =
     (let (ch, w1) = lookup_begin addr w in lookup_select ch (env w1))"

text \<open>Calls for a list of addresses, one after the other, nothing else running.\<close>

fun lookup_all :: "Address list \<Rightarrow> world \<Rightarrow> (error + LinkAddress) list \<times> world" where
  "lookup_all [] w = ([], w)"
| "lookup_all (a # as) w =
     (let (res, w1) = LinkAddressLookup id a w;
          (rs, w2) = lookup_all as w1
      in (res # rs, w2))"

text \<open>Whether a call of \<^verbatim>\<open>WritePacket\<close> came back with an error value.\<close>

definition is_error_return :: "(error option \<times> world) outcome \<Rightarrow> bool" where
  "is_error_return out = (case out of Returns (Some err, w) \<Rightarrow> True | _ \<Rightarrow> False)"

subsection \<open>A concrete stack\<close>

text \<open>The host owns 192.168.1.1 on interface 1; its link address is 02:00:00:00:00:01.\<close>

definition world0 :: world where
  "world0 = \<lparr>CheckLocalAddress = (\<lambda>hint a. if a = [192, 168, 1, 1] then 1 else 0),
             linkAddrCache = Map.empty, written = [], wait = [], next_chan = 0,
             receiving = {}, delivered = Map.empty, clock = 0\<rparr>"

definition world1 :: world where
  "world1 = world0\<lparr>wait := [(0, [10, 0, 0, 5]), (7, [10, 0, 0, 6])]\<rparr>"

definition route0 :: Route where
  "route0 = \<lparr>LocalLinkAddress = [2, 0, 0, 0, 0, 1]\<rparr>"

definition endpoint0 :: endpoint where
  "endpoint0 = \<lparr>nicid = 1, linkEP = \<lparr>linkMTU = 1500, linkMaxHeaderLength = 14\<rparr>,
                handler = Some protocolHandler\<rparr>"

text \<open>The request of 192.168.1.2 (aa:bb:cc:dd:ee:ff) for 192.168.1.1; a frame with the same
  operation code and addresses that fails \<^verbatim>\<open>IsValid\<close>, as one with a wrong fixed field
  does; and a reply from 10.0.0.5.\<close>

definition request0 :: ARP where
  "request0 = \<lparr>IsValid = True, Op = ARPRequest,
               HardwareAddressSender = [170, 187, 204, 221, 238, 255],
               ProtocolAddressSender = [192, 168, 1, 2],
               HardwareAddressTarget = [0, 0, 0, 0, 0, 0],
               ProtocolAddressTarget = [192, 168, 1, 1]\<rparr>"

definition bad0 :: ARP where
  "bad0 = request0\<lparr>IsValid := False\<rparr>"

definition reply0 :: ARP where
  "reply0 = \<lparr>IsValid = True, Op = ARPReply,
             HardwareAddressSender = [170, 187, 204, 221, 238, 255],
             ProtocolAddressSender = [10, 0, 0, 5],
             HardwareAddressTarget = [2, 0, 0, 0, 0, 1],
             ProtocolAddressTarget = [192, 168, 1, 1]\<rparr>"

section \<open>The packet list (icmpPacketList)\<close>

subsection \<open>Nodes and lists in the store\<close>

text \<open>A \<^verbatim>\<open>*icmpPacket\<close> that is not nil is a \<open>ref\<close>, and \<open>None\<close> is nil. The methods
  take the list by pointer, so lists live in the store too and two list arguments may
  be the same list. Of a packet only its embedded \<^verbatim>\<open>icmpPacketEntry\<close> matters here.\<close>

type_synonym ref = nat
type_synonym lref = nat

record icmpPacketEntry =
  "next" :: "ref option"
  prev :: "ref option"

record icmpPacketList =
  head :: "ref option"
  tail :: "ref option"

record store =
  list_of :: "lref \<Rightarrow> icmpPacketList"
  entry_of :: "ref \<Rightarrow> icmpPacketEntry"

definition Next :: "store \<Rightarrow> ref \<Rightarrow> ref option" where
  "Next s e = next (entry_of s e)"

definition Prev :: "store \<Rightarrow> ref \<Rightarrow> ref option" where
  "Prev s e = prev (entry_of s e)"

definition SetNext :: "ref \<Rightarrow> ref option \<Rightarrow> store \<Rightarrow> store" where
  "SetNext e entry s = s\<lparr>entry_of := (entry_of s)(e := (entry_of s e)\<lparr>next := entry\<rparr>)\<rparr>"

definition SetPrev :: "ref \<Rightarrow> ref option \<Rightarrow> store \<Rightarrow> store" where
  "SetPrev e entry s = s\<lparr>entry_of := (entry_of s)(e := (entry_of s e)\<lparr>prev := entry\<rparr>)\<rparr>"

text \<open>The assignments \<^verbatim>\<open>l.head = x\<close> and \<^verbatim>\<open>l.tail = x\<close>.\<close>

definition set_head :: "lref \<Rightarrow> ref option \<Rightarrow> store \<Rightarrow> store" where
  "set_head l x s = s\<lparr>list_of := (list_of s)(l := (list_of s l)\<lparr>head := x\<rparr>)\<rparr>"

definition set_tail :: "lref \<Rightarrow> ref option \<Rightarrow> store \<Rightarrow> store" where
  "set_tail l x s = s\<lparr>list_of := (list_of s)(l := (list_of s l)\<lparr>tail := x\<rparr>)\<rparr>"

subsection \<open>The operations\<close>

definition Reset :: "lref \<Rightarrow> store \<Rightarrow> store" where
  "Reset l s = set_tail l None (set_head l None s)"

definition Empty :: "lref \<Rightarrow> store \<Rightarrow> bool" where
  "Empty l s = (head (list_of s l) = None)"

definition Front :: "lref \<Rightarrow> store \<Rightarrow> ref option" where
  "Front l s = head (list_of s l)"

definition Back :: "lref \<Rightarrow> store \<Rightarrow> ref option" where
  "Back l s = tail (list_of s l)"

definition PushFront :: "lref \<Rightarrow> ref \<Rightarrow> store \<Rightarrow> store" where
  "PushFront l e s =
     (let s1 = SetNext e (head (list_of s l)) s;
          s2 = SetPrev e None s1;
          s3 = (case head (list_of s2 l) of
                  Some h \<Rightarrow> SetPrev h (Some e) s2
                | None \<Rightarrow> set_tail l (Some e) s2)
      in set_head l (Some e) s3)"

definition PushBack :: "lref \<Rightarrow> ref \<Rightarrow> store \<Rightarrow> store" where
  "PushBack l e s =
     (let s1 = SetNext e None s;
          s2 = SetPrev e (tail (list_of s1 l)) s1;
          s3 = (case tail (list_of s2 l) of
                  Some t \<Rightarrow> SetNext t (Some e) s2
                | None \<Rightarrow> set_head l (Some e) s2)
      in set_tail l (Some e) s3)"

text \<open>\<^verbatim>\<open>PushBackList\<close> calls \<^verbatim>\<open>l.tail.SetNext\<close> after testing only \<^verbatim>\<open>l.head\<close>: with a
  head and no tail that is a nil dereference, the result \<open>None\<close>.\<close>

definition PushBackList :: "lref \<Rightarrow> lref \<Rightarrow> store \<Rightarrow> store option" where
  "PushBackList l m s =
     (let r =
        (if head (list_of s l) = None then
           (let s1 = set_head l (head (list_of s m)) s
            in Some (set_tail l (tail (list_of s1 m)) s1))
         else
           (case head (list_of s m) of
              None \<Rightarrow> Some s
            | Some mh \<Rightarrow>
                (case tail (list_of s l) of
                   None \<Rightarrow> None
                 | Some lt \<Rightarrow>
                     (let s1 = SetNext lt (Some mh) s;
                          s2 = SetPrev mh (tail (list_of s1 l)) s1
                      in Some (set_tail l (tail (list_of s2 m)) s2)))))
      in map_option (\<lambda>s'. set_tail m None (set_head m None s')) r)"

definition InsertAfter :: "lref \<Rightarrow> ref \<Rightarrow> ref \<Rightarrow> store \<Rightarrow> store" where
  "InsertAfter l b e s =
     (let a = Next s b;
          s1 = SetNext e a s;
          s2 = SetPrev e (Some b) s1;
          s3 = SetNext b (Some e) s2
      in (case a of
            Some a' \<Rightarrow> SetPrev a' (Some e) s3
          | None \<Rightarrow> set_tail l (Some e) s3))"

definition InsertBefore :: "lref \<Rightarrow> ref \<Rightarrow> ref \<Rightarrow> store \<Rightarrow> store" where
  "InsertBefore l a e s =
     (let b = Prev s a;
          s1 = SetNext e (Some a) s;
          s2 = SetPrev e b s1;
          s3 = SetPrev a (Some e) s2
      in (case b of
            Some b' \<Rightarrow> SetNext b' (Some e) s3
          | None \<Rightarrow> set_head l (Some e) s3))"

definition Remove :: "lref \<Rightarrow> ref \<Rightarrow> store \<Rightarrow> store" where
  "Remove l e s =
     (let p = Prev s e;
          n = Next s e;
          s1 = (case p of
                  Some p' \<Rightarrow> SetNext p' n s
                | None \<Rightarrow> set_head l n s)
      in (case n of
            Some n' \<Rightarrow> SetPrev n' p s1
          | None \<Rightarrow> set_tail l p s1))"

subsection \<open>Traversal and the invariant\<close>

text \<open>The loop \<^verbatim>\<open>for e := l.Front(); e != nil; e = e.Next()\<close> of the type's comment,
  collecting the nodes it visits; with \<open>Prev\<close> and \<open>Back\<close> it runs backwards. On a cycle
  the loop does not end, and the result is \<open>None\<close>.\<close>

partial_function (option) traverse :: "(ref \<Rightarrow> ref option) \<Rightarrow> ref option \<Rightarrow> ref list option" where
  "traverse f p =
     (case p of
        None \<Rightarrow> Some []
      | Some e \<Rightarrow> Option.bind (traverse f (f e)) (\<lambda>es. Some (e # es)))"

text \<open>List \<open>l\<close> holds exactly the nodes \<open>xs\<close>, in this order: the forward traversal from
  the head ends and visits \<open>xs\<close>, the backward traversal from the tail ends and visits
  them in reverse, and no node occurs twice.\<close>

definition is_list :: "store \<Rightarrow> lref \<Rightarrow> ref list \<Rightarrow> bool" where
  "is_list s l xs =
     (distinct xs \<and>
      traverse (Next s) (Front l s) = Some xs \<and>
      traverse (Prev s) (Back l s) = Some (rev xs))"

text \<open>The invariant of the lists \<open>Ls\<close> with their contents \<open>C\<close>: each is a list, and no
  node is in two of them.\<close>

definition wf_lists :: "store \<Rightarrow> lref list \<Rightarrow> (lref \<Rightarrow> ref list) \<Rightarrow> bool" where
  "wf_lists s Ls C =
     ((\<forall>l \<in> set Ls. is_list s l (C l)) \<and>
      (\<forall>l \<in> set Ls. \<forall>k \<in> set Ls. l \<noteq> k \<longrightarrow> set (C l) \<inter> set (C k) = {}))"

text \<open>A chain of links from \<open>p\<close> through exactly the nodes \<open>xs\<close> to \<open>q\<close>.\<close>

fun path :: "(ref \<Rightarrow> ref option) \<Rightarrow> ref option \<Rightarrow> ref list \<Rightarrow> ref option \<Rightarrow> bool" where
  "path f p [] q = (p = q)"
| "path f p (x # xs) q = (p = Some x \<and> path f (f x) xs q)"

definition start :: "ref list \<Rightarrow> ref option \<Rightarrow> ref option" where
  "start ys q = (case ys of [] \<Rightarrow> q | y # _ \<Rightarrow> Some y)"

text \<open>What the operations are expected to do to the sequence of nodes.\<close>

fun insert_after :: "ref \<Rightarrow> ref \<Rightarrow> ref list \<Rightarrow> ref list" where
  "insert_after b e [] = []"
| "insert_after b e (x # xs) = (if x = b then x # e # xs else x # insert_after b e xs)"

fun insert_before :: "ref \<Rightarrow> ref \<Rightarrow> ref list \<Rightarrow> ref list" where
  "insert_before a e [] = []"
| "insert_before a e (x # xs) = (if x = a then e # x # xs else x # insert_before a e xs)"

fun first :: "ref list \<Rightarrow> ref option" where
  "first [] = None"
| "first (x # xs) = Some x"

subsection \<open>A concrete store\<close>

text \<open>The zero store, and three lists built with \<open>PushBack\<close>: list 10 holds 11 and 12,
  list 20 holds 21 and 22, list 30 holds 31.\<close>

definition store0 :: store where
  "store0 = \<lparr>list_of = (\<lambda>l. \<lparr>head = None, tail = None\<rparr>),
             entry_of = (\<lambda>e. \<lparr>next = None, prev = None\<rparr>)\<rparr>"

definition store1 :: store where
  "store1 =
     PushBack 30 31 (PushBack 20 22 (PushBack 20 21 (PushBack 10 12 (PushBack 10 11 store0))))"

definition contents1 :: "lref \<Rightarrow> ref list" where
  "contents1 = (\<lambda>l. [])(10 := [11, 12], 20 := [21, 22], 30 := [31])"

section \<open>Sizes: the MTU wraps\<close>

lemma header_length_small: "unat (h :: uint16) < 2 ^ 32"
proof -
  have "unat h < 2 ^ 16"
    using unsigned_less [of h, where ?'a = nat] by simp
  then show ?thesis by simp
qed

lemma unat_header_length: "unat (ucast (h :: uint16) :: uint32) = unat h"
  using header_length_small [of h] by (simp add: unsigned_ucast_eq take_bit_nat_eq_self_iff)

text \<open>C10: \<^verbatim>\<open>MTU()\<close> is the link MTU minus \<^verbatim>\<open>MaxHeaderLength()\<close> in unsigned 32-bit
  arithmetic, where \<^verbatim>\<open>MaxHeaderLength()\<close> is the link header length plus the ARP frame
  size (a 16-bit sum). When the link MTU is the smaller of the two, the result is
  \<open>2 ^ 32\<close> minus the deficit: it wraps, it is neither zero nor an error.\<close>

theorem MTU_wraps_modulo:
  "unat (MaxHeaderLength ARPSize e) =
     (unat (linkMaxHeaderLength (linkEP e)) + unat ARPSize) mod 2 ^ 16 \<and>
   unat (MTU ARPSize e) =
     (if unat (MaxHeaderLength ARPSize e) \<le> unat (linkMTU (linkEP e))
      then unat (linkMTU (linkEP e)) - unat (MaxHeaderLength ARPSize e)
      else 2 ^ 32 - (unat (MaxHeaderLength ARPSize e) - unat (linkMTU (linkEP e))))"
proof -
  let ?h = "MaxHeaderLength ARPSize e" and ?m = "linkMTU (linkEP e)"
  have a: "unat ?h = (unat (linkMaxHeaderLength (linkEP e)) + unat ARPSize) mod 2 ^ 16"
    by (simp add: MaxHeaderLength_def unat_word_ariths)
  have le: "(ucast ?h :: uint32) \<le> ?m \<longleftrightarrow> unat ?h \<le> unat ?m"
    by (simp add: word_le_nat_alt unat_header_length)
  have b: "unat (?m - ucast ?h) =
     (if unat ?h \<le> unat ?m then unat ?m - unat ?h else 2 ^ 32 - (unat ?h - unat ?m))"
    using header_length_small [of ?h] unsigned_less [of ?m, where ?'a = nat]
    by (simp add: unat_sub_if' le unat_header_length) arith
  show ?thesis using a b by (simp add: MTU_def Let_def)
qed

section \<open>Receiving frames\<close>

lemma notify_cache: "linkAddrCache (notify a la ws w) = linkAddrCache w"
  by (induction a la ws w rule: notify.induct) (simp_all add: delete_wait_def try_send_def)

lemma notify_written: "written (notify a la ws w) = written w"
  by (induction a la ws w rule: notify.induct) (simp_all add: delete_wait_def try_send_def)

lemma notify_wait: "set (wait (notify a la ws w)) \<subseteq> set (wait w)"
proof (induction a la ws w rule: notify.induct)
  case (1 addr linkAddr w)
  then show ?case by simp
next
  case (2 addr linkAddr ch chAddr rest w)
  have "set (wait (delete_wait ch (try_send ch linkAddr w))) \<subseteq> set (wait w)"
    by (auto simp: delete_wait_def try_send_def)
  with 2 show ?case by (auto split: if_splits)
qed

lemma protocolHandler_written: "written (snd (protocolHandler r v w)) = written w"
  by (simp add: protocolHandler_def Let_def notify_written AddLinkAddrCache_def)

text \<open>C1, at the request of 192.168.1.2 for the locally owned 192.168.1.1: the endpoint hands
  the link endpoint exactly one frame, a Reply whose sender hardware address is the local
  link address and whose sender protocol address is 192.168.1.1. Its target protocol
  address is still 192.168.1.1, not the requester's 192.168.1.2, and its target hardware
  address is still the request's: \<^verbatim>\<open>HandlePacket\<close> writes the two sender fields and never
  the target fields, so the addresses are not swapped.\<close>

theorem HandlePacket_reply_keeps_target:
  "written (snd (HandlePacket endpoint0 route0 request0 world0)) =
     [\<lparr>wRoute = route0, wHeaderRoom = 14,
       wPayload = \<lparr>IsValid = True, Op = ARPReply,
                  HardwareAddressSender = [2, 0, 0, 0, 0, 1],
                  ProtocolAddressSender = [192, 168, 1, 1],
                  HardwareAddressTarget = [0, 0, 0, 0, 0, 0],
                  ProtocolAddressTarget = [192, 168, 1, 1]\<rparr>,
       wProtocol = ProtocolNumber\<rparr>] \<and>
   ProtocolAddressTarget (wPayload (hd (written (snd (HandlePacket endpoint0 route0 request0 world0)))))
     \<noteq> ProtocolAddressSender request0"
  by (simp add: HandlePacket_def endpoint0_def request0_def world0_def route0_def
      linkEP_WritePacket_def copy_def protocolHandler_def AddLinkAddrCache_def Let_def)

text \<open>What \<^verbatim>\<open>HandlePacket\<close> does with every valid Request for a locally owned address,
  whether the secondary handler is absent or is the resolver's: one frame is written, the
  view itself with the operation code Reply, the local link address copied over the sender
  hardware address and the target protocol address copied over the sender protocol
  address; both target fields are the request's.\<close>

theorem HandlePacket_answers_request:
  assumes "IsValid v" and "CheckLocalAddress w 0 (ProtocolAddressTarget v) \<noteq> 0"
    and "Op v = ARPRequest" and "handler e = None \<or> handler e = Some protocolHandler"
  shows "written (snd (HandlePacket e r v w)) =
           written w @
             [\<lparr>wRoute = r, wHeaderRoom = unat (linkMaxHeaderLength (linkEP e)),
               wPayload = v\<lparr>Op := ARPReply,
                            HardwareAddressSender :=
                              copy (HardwareAddressSender v) (LocalLinkAddress r),
                            ProtocolAddressSender :=
                              copy (ProtocolAddressSender v) (ProtocolAddressTarget v)\<rparr>,
               wProtocol = ProtocolNumber\<rparr>]"
  using assms
  by (auto simp: HandlePacket_def Let_def linkEP_WritePacket_def protocolHandler_written)

theorem HandlePacket_answers_request_witness:
  "IsValid request0 \<and> CheckLocalAddress world0 0 (ProtocolAddressTarget request0) \<noteq> 0 \<and>
   Op request0 = ARPRequest \<and> handler endpoint0 = Some protocolHandler \<and>
   length (written (snd (HandlePacket endpoint0 route0 request0 world0))) = 1"
proof -
  have h1: "IsValid request0" and h3: "Op request0 = ARPRequest"
    by (simp_all add: request0_def)
  have h2: "CheckLocalAddress world0 0 (ProtocolAddressTarget request0) \<noteq> 0"
    by (simp add: world0_def request0_def)
  have h4: "handler endpoint0 = None \<or> handler endpoint0 = Some protocolHandler"
    by (simp add: endpoint0_def)
  have w: "written world0 = []" by (simp add: world0_def)
  from HandlePacket_answers_request [OF h1 h2 h3 h4, of route0] w h1 h2 h3
  show ?thesis by (simp add: endpoint0_def)
qed

text \<open>The handler itself does not consult \<^verbatim>\<open>IsValid\<close>: called on its own with the frame
  \<open>bad0\<close> it stores the frame's sender mapping. In \<^verbatim>\<open>arp.go\<close> the only call of a
  handler is the one at the end of \<^verbatim>\<open>HandlePacket\<close>, behind the validity check, so an
  inbound frame that fails the check never reaches it.\<close>

lemma protocolHandler_has_no_validity_check:
  "\<not> IsValid bad0 \<and> linkAddrCache world0 (1, [192, 168, 1, 2]) = None \<and>
   linkAddrCache (snd (protocolHandler route0 bad0 world0)) (1, [192, 168, 1, 2]) =
     Some [170, 187, 204, 221, 238, 255]"
  by (simp add: bad0_def request0_def world0_def protocolHandler_def AddLinkAddrCache_def Let_def)



text \<open>C5: on every frame, Request or Reply or other, the resolver's handler stores the
  sender hardware address in the cache under the interface that owns the frame's target
  address and the sender protocol address, and returns false. When the operation code is
  not Reply that is all it does: the waiter registry and every channel are as before.\<close>

theorem handler_learns_sender:
  "fst (protocolHandler r v w) = False \<and>
   linkAddrCache (snd (protocolHandler r v w)) =
     (linkAddrCache w)((CheckLocalAddress w 0 (ProtocolAddressTarget v), ProtocolAddressSender v)
        \<mapsto> HardwareAddressSender v) \<and>
   (Op v \<noteq> ARPReply \<longrightarrow>
      snd (protocolHandler r v w) =
        AddLinkAddrCache (CheckLocalAddress w 0 (ProtocolAddressTarget v))
          (ProtocolAddressSender v) (HardwareAddressSender v) w \<and>
      wait (snd (protocolHandler r v w)) = wait w \<and>
      receiving (snd (protocolHandler r v w)) = receiving w \<and>
      delivered (snd (protocolHandler r v w)) = delivered w)"
  by (simp add: protocolHandler_def Let_def AddLinkAddrCache_def notify_cache)

theorem handler_learns_sender_witness:
  "Op request0 \<noteq> ARPReply \<and>
   linkAddrCache (snd (protocolHandler route0 request0 world1)) (1, [192, 168, 1, 2]) =
     Some [170, 187, 204, 221, 238, 255] \<and>
   wait (snd (protocolHandler route0 request0 world1)) = wait world1 \<and>
   delivered (snd (protocolHandler route0 request0 world1)) = delivered world1"
proof -
  have h: "Op request0 \<noteq> ARPReply" by (simp add: request0_def)
  have k: "CheckLocalAddress world1 0 (ProtocolAddressTarget request0) = 1"
    "ProtocolAddressSender request0 = [192, 168, 1, 2]"
    "HardwareAddressSender request0 = [170, 187, 204, 221, 238, 255]"
    by (simp_all add: world1_def world0_def request0_def)
  from handler_learns_sender [of route0 request0 world1] h k
  show ?thesis by (simp add: AddLinkAddrCache_def)
qed

text \<open>C6 as stated fails: at a concrete call \<^verbatim>\<open>WritePacket\<close> does not come back with an
  error value.\<close>

theorem WritePacket_no_error_return:
  "\<not> is_error_return (WritePacket endpoint0 route0 14 [] 6 world0)"
  by (simp add: WritePacket_def is_error_return_def)

text \<open>C6, amended: for every route, header, payload and protocol number, \<^verbatim>\<open>WritePacket\<close>
  panics with the message \<open>arp.WritePacket TODO\<close>; it returns nothing, neither an error
  nor success.\<close>

theorem WritePacket_panics:
  "WritePacket e r hdr payload protocol w = Panics ''arp.WritePacket TODO'' \<and>
   \<not> is_error_return (WritePacket e r hdr payload protocol w)"
  by (simp add: WritePacket_def is_error_return_def)

section \<open>Resolving an address\<close>

text \<open>C2, at a call for 10.0.0.5 on a fresh stack while a Reply from 10.0.0.5 is handled:
  when the caller blocks the waiter registry is still empty, since the lookup function
  never stores its channel in \<^verbatim>\<open>wait\<close>; the handler finds no waiter, nothing is delivered
  on channel 0, and the call ends with the timeout error.\<close>

theorem lookup_registers_nothing:
  "wait (snd (lookup_begin [10, 0, 0, 5] world0)) = [] \<and>
   fst (LinkAddressLookup (\<lambda>w. snd (protocolHandler route0 reply0 w)) [10, 0, 0, 5] world0)
     = Inl ErrTimeout \<and>
   delivered (snd (LinkAddressLookup (\<lambda>w. snd (protocolHandler route0 reply0 w))
     [10, 0, 0, 5] world0)) 0 = None"
  by (simp add: LinkAddressLookup_def lookup_begin_def lookup_select_def protocolHandler_def
      AddLinkAddrCache_def delete_wait_def world0_def reply0_def Let_def)

text \<open>No step of the subsystem adds an entry to the waiter registry: not the handler, not
  the lookup function before it blocks, not its \<^verbatim>\<open>select\<close>.\<close>

theorem registry_never_grows:
  "set (wait (snd (protocolHandler r v w))) \<subseteq> set (wait w) \<and>
   wait (snd (lookup_begin addr w)) = wait w \<and>
   set (wait (snd (lookup_select ch w))) \<subseteq> set (wait w)"
proof -
  have "set (wait (snd (protocolHandler r v w))) \<subseteq> set (wait w)"
    using notify_wait [of "ProtocolAddressSender v" "HardwareAddressSender v"
        "wait w" "AddLinkAddrCache (CheckLocalAddress w 0 (ProtocolAddressTarget v))
          (ProtocolAddressSender v) (HardwareAddressSender v) w"]
    by (simp add: protocolHandler_def Let_def AddLinkAddrCache_def)
  moreover have "wait (snd (lookup_begin addr w)) = wait w"
    by (simp add: lookup_begin_def Let_def)
  moreover have "set (wait (snd (lookup_select ch w))) \<subseteq> set (wait w)"
    by (auto simp: lookup_select_def delete_wait_def Let_def split: option.splits)
  ultimately show ?thesis by blast
qed

lemma lookup_timeout_one:
  assumes "delivered (env (snd (lookup_begin addr w))) (next_chan w) = None"
  shows "fst (LinkAddressLookup env addr w) = Inl ErrTimeout"
    and "next_chan w \<notin> fst ` set (wait (snd (LinkAddressLookup env addr w)))"
    and "clock (snd (LinkAddressLookup env addr w)) =
           clock (env (snd (lookup_begin addr w))) + 15 * Second"
  using assms
  by (auto simp: LinkAddressLookup_def lookup_begin_def lookup_select_def delete_wait_def Let_def)

lemma lookup_all_timeouts:
  "wait w = [] \<Longrightarrow> dom (delivered w) \<subseteq> {..<next_chan w} \<Longrightarrow>
     fst (lookup_all addrs w) = replicate (length addrs) (Inl ErrTimeout) \<and>
     wait (snd (lookup_all addrs w)) = []"
proof (induction addrs arbitrary: w)
  case Nil
  then show ?case by simp
next
  case (Cons a addrs)
  have none: "delivered w (next_chan w) = None"
    using Cons.prems(2) by (auto simp: domIff)
  let ?w1 = "snd (LinkAddressLookup id a w)"
  have r: "fst (LinkAddressLookup id a w) = Inl ErrTimeout"
    using none
    by (simp add: LinkAddressLookup_def lookup_begin_def lookup_select_def Let_def)
  have w1: "wait ?w1 = []" "delivered ?w1 = delivered w" "next_chan ?w1 = Suc (next_chan w)"
    using none Cons.prems(1)
    by (simp_all add: LinkAddressLookup_def lookup_begin_def lookup_select_def delete_wait_def Let_def)
  have "dom (delivered ?w1) \<subseteq> {..<next_chan ?w1}"
    using Cons.prems(2) w1 by auto
  from Cons.IH [OF w1(1) this] r show ?case
    by (simp add: split_beta Let_def)
qed

text \<open>C3: a call on whose channel nothing is delivered while it blocks returns the timeout
  error, 15 seconds of the clock later, and the registry it leaves has no entry for its
  channel, whatever the registry held before. A run of calls for any addresses, one
  after the other on a stack with an empty registry and nothing delivered on channels not
  yet made, returns the timeout error every time and leaves the registry empty; since
  this holds for every list of addresses, it holds after each call of the run.\<close>

theorem lookup_timeout_cleans_registry:
  "(delivered (env (snd (lookup_begin addr w))) (next_chan w) = None \<longrightarrow>
      fst (LinkAddressLookup env addr w) = Inl ErrTimeout \<and>
      next_chan w \<notin> fst ` set (wait (snd (LinkAddressLookup env addr w))) \<and>
      clock (snd (LinkAddressLookup env addr w)) =
        clock (env (snd (lookup_begin addr w))) + 15 * Second) \<and>
   (wait w = [] \<and> dom (delivered w) \<subseteq> {..<next_chan w} \<longrightarrow>
      fst (lookup_all addrs w) = replicate (length addrs) (Inl ErrTimeout) \<and>
      wait (snd (lookup_all addrs w)) = [])"
  using lookup_timeout_one [of env addr w] lookup_all_timeouts [of w addrs] by blast

theorem lookup_timeout_cleans_registry_witness:
  "delivered (id (snd (lookup_begin [10, 0, 0, 5] world1))) (next_chan world1) = None \<and>
   fst (LinkAddressLookup id [10, 0, 0, 5] world1) = Inl ErrTimeout \<and>
   wait (snd (LinkAddressLookup id [10, 0, 0, 5] world1)) = [(7, [10, 0, 0, 6])] \<and>
   clock (snd (LinkAddressLookup id [10, 0, 0, 5] world1)) = 15000000000 \<and>
   wait world0 = [] \<and> dom (delivered world0) \<subseteq> {..<next_chan world0} \<and>
   fst (lookup_all [[10, 0, 0, 5], [10, 0, 0, 6]] world0) = [Inl ErrTimeout, Inl ErrTimeout] \<and>
   wait (snd (lookup_all [[10, 0, 0, 5], [10, 0, 0, 6]] world0)) = []"
proof -
  have h1: "delivered (id (snd (lookup_begin [10, 0, 0, 5] world1))) (next_chan world1) = None"
    by (simp add: lookup_begin_def world1_def world0_def Let_def)
  have h2: "wait world0 = [] \<and> dom (delivered world0) \<subseteq> {..<next_chan world0}"
    by (simp add: world0_def)
  have w: "wait (snd (LinkAddressLookup id [10, 0, 0, 5] world1)) = [(7, [10, 0, 0, 6])]"
    by (simp add: LinkAddressLookup_def lookup_begin_def lookup_select_def delete_wait_def
        world1_def world0_def Let_def)
  have c: "clock (id (snd (lookup_begin [10, 0, 0, 5] world1))) = 0"
    by (simp add: lookup_begin_def world1_def world0_def Let_def)
  from lookup_timeout_cleans_registry [of id "[10, 0, 0, 5]" world1 "[]"]
    lookup_timeout_cleans_registry [of id "[]" world0 "[[10, 0, 0, 5], [10, 0, 0, 6]]"]
    h1 h2 w c
  show ?thesis by (simp add: Second_def)
qed

section \<open>The packet list keeps its invariant\<close>

subsection \<open>Chains of links\<close>

lemma start_simps [simp]: "start [] q = q" "start (y # ys) q = Some y"
  by (simp_all add: start_def)

lemma path_start: "path f p ys q \<Longrightarrow> p = start ys q"
  by (cases ys) simp_all

lemma path_append:
  "path f p (xs @ ys) q = (path f p xs (start ys q) \<and> path f (start ys q) ys q)"
proof (induction xs arbitrary: p)
  case Nil
  show ?case using path_start [of f p ys q] by auto
next
  case (Cons x xs)
  then show ?case by simp
qed

lemma path_upd: "e \<notin> set xs \<Longrightarrow> path (f(e := v)) p xs q = path f p xs q"
  by (induction xs arbitrary: p) auto

lemma traverse_path: "path f p xs None \<Longrightarrow> traverse f p = Some xs"
proof (induction xs arbitrary: p)
  case Nil
  then show ?case by (simp add: traverse.simps)
next
  case (Cons x xs)
  then have "traverse f (f x) = Some xs" by simp
  with Cons.prems show ?case by (subst traverse.simps) simp
qed

lemma path_traverse: "traverse f p = Some xs \<Longrightarrow> path f p xs None"
proof (induction xs arbitrary: p)
  case Nil
  then show ?case
    by (subst (asm) traverse.simps) (simp split: option.splits bind_splits)
next
  case (Cons x xs)
  from Cons.prems have "p = Some x \<and> traverse f (f x) = Some xs"
    by (subst (asm) traverse.simps) (auto split: option.splits bind_splits)
  with Cons.IH show ?case by simp
qed

lemma traverse_iff_path: "traverse f p = Some xs \<longleftrightarrow> path f p xs None"
  using traverse_path path_traverse by blast

lemma is_list_iff:
  "is_list s l xs \<longleftrightarrow>
     distinct xs \<and> path (Next s) (head (list_of s l)) xs None \<and>
     path (Prev s) (tail (list_of s l)) (rev xs) None"
  by (simp add: is_list_def traverse_iff_path Front_def Back_def)

subsection \<open>Each operation on one list\<close>

text \<open>For each operation: what it makes of the list it is called on, and that it leaves
  every other list alone whose nodes are not among those of the list or the new node.\<close>

lemma Next_simps [simp]:
  "Next (SetNext e x s) = (Next s)(e := x)"
  "Next (SetPrev e x s) = Next s"
  "Next (set_head l y s) = Next s"
  "Next (set_tail l y s) = Next s"
  by (auto simp: Next_def SetNext_def SetPrev_def set_head_def set_tail_def)

lemma Prev_simps [simp]:
  "Prev (SetPrev e x s) = (Prev s)(e := x)"
  "Prev (SetNext e x s) = Prev s"
  "Prev (set_head l y s) = Prev s"
  "Prev (set_tail l y s) = Prev s"
  by (auto simp: Prev_def SetNext_def SetPrev_def set_head_def set_tail_def)

lemma list_of_simps [simp]:
  "list_of (SetNext e x s) = list_of s"
  "list_of (SetPrev e x s) = list_of s"
  "head (list_of (set_head l y s) k) = (if k = l then y else head (list_of s k))"
  "tail (list_of (set_head l y s) k) = tail (list_of s k)"
  "head (list_of (set_tail l y s) k) = head (list_of s k)"
  "tail (list_of (set_tail l y s) k) = (if k = l then y else tail (list_of s k))"
  by (auto simp: SetNext_def SetPrev_def set_head_def set_tail_def)

lemma PushFront_ok:
  assumes "is_list s l xs" "e \<notin> set xs"
  shows "is_list (PushFront l e s) l (e # xs)"
  using assms
  by (cases xs) (auto simp: is_list_iff PushFront_def Let_def path_append path_upd)

lemma PushFront_frame:
  assumes "is_list s k zs" "k \<noteq> l" "e \<notin> set zs" "is_list s l xs" "set xs \<inter> set zs = {}"
  shows "is_list (PushFront l e s) k zs"
  using assms
  by (cases xs) (auto simp: is_list_iff PushFront_def Let_def path_append path_upd)

lemma Reset_ok: "is_list (Reset l s) l []"
  by (simp add: is_list_iff Reset_def)

lemma Reset_frame: "is_list s k zs \<Longrightarrow> k \<noteq> l \<Longrightarrow> is_list (Reset l s) k zs"
  by (simp add: is_list_iff Reset_def)

lemma PushBack_ok:
  assumes "is_list s l xs" "e \<notin> set xs"
  shows "is_list (PushBack l e s) l (xs @ [e])"
  using assms
  by (cases xs rule: rev_cases) (auto simp: is_list_iff PushBack_def Let_def path_append path_upd)

lemma PushBack_frame:
  assumes "is_list s k zs" "k \<noteq> l" "e \<notin> set zs" "is_list s l xs" "set xs \<inter> set zs = {}"
  shows "is_list (PushBack l e s) k zs"
  using assms
  by (cases xs rule: rev_cases) (auto simp: is_list_iff PushBack_def Let_def path_append path_upd)

lemma InsertAfter_ok:
  assumes "is_list s l (us @ b # vs)" "e \<notin> set (us @ b # vs)"
  shows "is_list (InsertAfter l b e s) l (us @ b # e # vs)"
  using assms
  by (cases vs) (auto simp: is_list_iff InsertAfter_def Let_def path_append path_upd)

lemma InsertAfter_frame:
  assumes "is_list s k zs" "k \<noteq> l" "e \<notin> set zs" "is_list s l (us @ b # vs)"
    "set (us @ b # vs) \<inter> set zs = {}"
  shows "is_list (InsertAfter l b e s) k zs"
  using assms
  by (cases vs) (auto simp: is_list_iff InsertAfter_def Let_def path_append path_upd)

lemma InsertBefore_ok:
  assumes "is_list s l (us @ a # vs)" "e \<notin> set (us @ a # vs)"
  shows "is_list (InsertBefore l a e s) l (us @ e # a # vs)"
  using assms
  by (cases us rule: rev_cases) (auto simp: is_list_iff InsertBefore_def Let_def path_append path_upd)

lemma InsertBefore_frame:
  assumes "is_list s k zs" "k \<noteq> l" "e \<notin> set zs" "is_list s l (us @ a # vs)"
    "set (us @ a # vs) \<inter> set zs = {}"
  shows "is_list (InsertBefore l a e s) k zs"
  using assms
  by (cases us rule: rev_cases) (auto simp: is_list_iff InsertBefore_def Let_def path_append path_upd)

lemma Remove_ok:
  assumes "is_list s l (us @ e # vs)"
  shows "is_list (Remove l e s) l (us @ vs)"
  using assms
  by (cases us rule: rev_cases; cases vs)
     (auto simp: is_list_iff Remove_def Let_def path_append path_upd)

lemma Remove_frame:
  assumes "is_list s k zs" "k \<noteq> l" "is_list s l (us @ e # vs)"
    "set (us @ e # vs) \<inter> set zs = {}"
  shows "is_list (Remove l e s) k zs"
  using assms
  by (cases us rule: rev_cases; cases vs)
     (auto simp: is_list_iff Remove_def Let_def path_append path_upd)

lemma path_to_Some: "path f p xs (Some y) \<Longrightarrow> \<exists>z. p = Some z"
  by (cases xs) simp_all

lemma PushBackList_ok:
  assumes "is_list s l xs" "is_list s m ys" "l \<noteq> m" "set xs \<inter> set ys = {}"
  shows "\<exists>s'. PushBackList l m s = Some s' \<and> is_list s' l (xs @ ys) \<and> is_list s' m []"
  using assms
  by (cases xs rule: rev_cases; cases ys)
     (auto simp: is_list_iff PushBackList_def Let_def path_append path_upd dest: path_to_Some)

lemma PushBackList_frame:
  assumes "is_list s k zs" "k \<noteq> l" "k \<noteq> m" "is_list s l xs" "is_list s m ys" 
    "set xs \<inter> set zs = {}" "set ys \<inter> set zs = {}" "PushBackList l m s = Some s'"
  shows "is_list s' k zs"
  using assms
  by (cases xs rule: rev_cases; cases ys)
     (auto simp: is_list_iff PushBackList_def Let_def path_append path_upd split: if_splits option.splits)

subsection \<open>Each operation on a family of lists\<close>

lemma insert_after_split:
  "b \<notin> set us \<Longrightarrow> insert_after b e (us @ b # vs) = us @ b # e # vs"
  by (induction us) auto

lemma insert_before_split:
  "a \<notin> set us \<Longrightarrow> insert_before a e (us @ a # vs) = us @ e # a # vs"
  by (induction us) auto

lemma remove1_split: "e \<notin> set us \<Longrightarrow> remove1 e (us @ e # vs) = us @ vs"
  by (induction us) auto

lemma wf_lists_update:
  assumes wf: "wf_lists s Ls C"
    and new: "is_list s' l xs'"
    and others: "\<And>k. k \<in> set Ls \<Longrightarrow> k \<noteq> l \<Longrightarrow> is_list s' k (C k)"
    and sub: "set xs' \<subseteq> set (C l) \<union> E"
    and fresh: "\<And>k. k \<in> set Ls \<Longrightarrow> E \<inter> set (C k) = {}"
    and l: "l \<in> set Ls"
  shows "wf_lists s' Ls (C(l := xs'))"
proof -
  have disj: "set (C l) \<inter> set (C k) = {}" if "k \<in> set Ls" "k \<noteq> l" for k
    using wf l that by (auto simp: wf_lists_def)
  have a: "set xs' \<inter> set (C k) = {}" if "k \<in> set Ls" "k \<noteq> l" for k
    using disj [OF that] fresh [OF that(1)] sub by blast
  have b: "set (C j) \<inter> set (C k) = {}" if "j \<in> set Ls" "k \<in> set Ls" "j \<noteq> k" for j k
    using wf that by (auto simp: wf_lists_def)
  show ?thesis
    unfolding wf_lists_def
  proof (intro conjI ballI impI)
    fix j assume "j \<in> set Ls"
    then show "is_list s' j ((C(l := xs')) j)"
      using new others by simp
  next
    fix j k assume jk: "j \<in> set Ls" "k \<in> set Ls" "j \<noteq> k"
    show "set ((C(l := xs')) j) \<inter> set ((C(l := xs')) k) = {}"
    proof (cases "j = l")
      case True
      then show ?thesis using a [of k] jk by simp
    next
      case False
      show ?thesis
      proof (cases "k = l")
        case True
        then show ?thesis using a [of j] jk False by (simp add: Int_commute)
      next
        case k: False
        then show ?thesis using b [OF jk] False by simp
      qed
    qed
  qed
qed

lemma wf_is_list: "wf_lists s Ls C \<Longrightarrow> l \<in> set Ls \<Longrightarrow> is_list s l (C l)"
  by (simp add: wf_lists_def)

lemma wf_disjoint:
  "wf_lists s Ls C \<Longrightarrow> l \<in> set Ls \<Longrightarrow> k \<in> set Ls \<Longrightarrow> k \<noteq> l \<Longrightarrow> set (C l) \<inter> set (C k) = {}"
  by (auto simp: wf_lists_def)

lemma Reset_wf:
  assumes "wf_lists s Ls C" "l \<in> set Ls"
  shows "wf_lists (Reset l s) Ls (C(l := []))"
proof (rule wf_lists_update [OF assms(1), where E = "{}"])
  show "is_list (Reset l s) l []" by (rule Reset_ok)
  show "is_list (Reset l s) k (C k)" if "k \<in> set Ls" "k \<noteq> l" for k
    using Reset_frame wf_is_list [OF assms(1) that(1)] that(2) by blast
qed (use assms in auto)

lemma PushFront_wf:
  assumes "wf_lists s Ls C" "l \<in> set Ls" "\<And>k. k \<in> set Ls \<Longrightarrow> e \<notin> set (C k)"
  shows "wf_lists (PushFront l e s) Ls (C(l := e # C l))"
proof (rule wf_lists_update [OF assms(1), where E = "{e}"])
  show "is_list (PushFront l e s) l (e # C l)"
    using PushFront_ok wf_is_list [OF assms(1,2)] assms(3) [OF assms(2)] by blast
  show "is_list (PushFront l e s) k (C k)" if "k \<in> set Ls" "k \<noteq> l" for k
    using PushFront_frame [OF wf_is_list [OF assms(1) that(1)] that(2) assms(3) [OF that(1)]
        wf_is_list [OF assms(1,2)] wf_disjoint [OF assms(1,2) that]] .
qed (use assms in auto)

lemma PushBack_wf:
  assumes "wf_lists s Ls C" "l \<in> set Ls" "\<And>k. k \<in> set Ls \<Longrightarrow> e \<notin> set (C k)"
  shows "wf_lists (PushBack l e s) Ls (C(l := C l @ [e]))"
proof (rule wf_lists_update [OF assms(1), where E = "{e}"])
  show "is_list (PushBack l e s) l (C l @ [e])"
    using PushBack_ok wf_is_list [OF assms(1,2)] assms(3) [OF assms(2)] by blast
  show "is_list (PushBack l e s) k (C k)" if "k \<in> set Ls" "k \<noteq> l" for k
    using PushBack_frame [OF wf_is_list [OF assms(1) that(1)] that(2) assms(3) [OF that(1)]
        wf_is_list [OF assms(1,2)] wf_disjoint [OF assms(1,2) that]] .
qed (use assms in auto)

lemma InsertAfter_wf:
  assumes "wf_lists s Ls C" "l \<in> set Ls" "\<And>k. k \<in> set Ls \<Longrightarrow> e \<notin> set (C k)" "b \<in> set (C l)"
  shows "wf_lists (InsertAfter l b e s) Ls (C(l := insert_after b e (C l)))"
proof -
  have il: "is_list s l (C l)" by (rule wf_is_list [OF assms(1,2)])
  from assms(4) obtain us vs where sp: "C l = us @ b # vs" "b \<notin> set us"
    by (auto dest: split_list_first)
  then have eq: "insert_after b e (C l) = us @ b # e # vs"
    by (simp add: insert_after_split)
  show ?thesis
  proof (rule wf_lists_update [OF assms(1), where E = "{e}"])
    show "is_list (InsertAfter l b e s) l (insert_after b e (C l))"
      using InsertAfter_ok [of s l us b vs e] il assms(3) [OF assms(2)] sp eq by simp
    show "is_list (InsertAfter l b e s) k (C k)" if "k \<in> set Ls" "k \<noteq> l" for k
      using InsertAfter_frame [OF wf_is_list [OF assms(1) that(1)] that(2) assms(3) [OF that(1)],
          of us b vs] il wf_disjoint [OF assms(1,2) that] sp by simp
    show "set (insert_after b e (C l)) \<subseteq> set (C l) \<union> {e}"
      using sp eq by auto
  qed (use assms in auto)
qed

lemma InsertBefore_wf:
  assumes "wf_lists s Ls C" "l \<in> set Ls" "\<And>k. k \<in> set Ls \<Longrightarrow> e \<notin> set (C k)" "a \<in> set (C l)"
  shows "wf_lists (InsertBefore l a e s) Ls (C(l := insert_before a e (C l)))"
proof -
  have il: "is_list s l (C l)" by (rule wf_is_list [OF assms(1,2)])
  from assms(4) obtain us vs where sp: "C l = us @ a # vs" "a \<notin> set us"
    by (auto dest: split_list_first)
  then have eq: "insert_before a e (C l) = us @ e # a # vs"
    by (simp add: insert_before_split)
  show ?thesis
  proof (rule wf_lists_update [OF assms(1), where E = "{e}"])
    show "is_list (InsertBefore l a e s) l (insert_before a e (C l))"
      using InsertBefore_ok [of s l us a vs e] il assms(3) [OF assms(2)] sp eq by simp
    show "is_list (InsertBefore l a e s) k (C k)" if "k \<in> set Ls" "k \<noteq> l" for k
      using InsertBefore_frame [OF wf_is_list [OF assms(1) that(1)] that(2) assms(3) [OF that(1)],
          of us a vs] il wf_disjoint [OF assms(1,2) that] sp by simp
    show "set (insert_before a e (C l)) \<subseteq> set (C l) \<union> {e}"
      using sp eq by auto
  qed (use assms in auto)
qed

lemma Remove_wf:
  assumes "wf_lists s Ls C" "l \<in> set Ls" "e \<in> set (C l)"
  shows "wf_lists (Remove l e s) Ls (C(l := remove1 e (C l)))"
proof -
  have il: "is_list s l (C l)" by (rule wf_is_list [OF assms(1,2)])
  from assms(3) obtain us vs where sp: "C l = us @ e # vs" "e \<notin> set us"
    by (auto dest: split_list_first)
  then have eq: "remove1 e (C l) = us @ vs"
    by (simp add: remove1_split)
  show ?thesis
  proof (rule wf_lists_update [OF assms(1), where E = "{}"])
    show "is_list (Remove l e s) l (remove1 e (C l))"
      using Remove_ok [of s l us e vs] il sp eq by simp
    show "is_list (Remove l e s) k (C k)" if "k \<in> set Ls" "k \<noteq> l" for k
      using Remove_frame [OF wf_is_list [OF assms(1) that(1)] that(2), of us e vs]
        il wf_disjoint [OF assms(1,2) that] sp by simp
    show "set (remove1 e (C l)) \<subseteq> set (C l) \<union> {}"
      using sp eq by auto
  qed (use assms in auto)
qed

lemma PushBackList_wf:
  assumes wf: "wf_lists s Ls C" and l: "l \<in> set Ls" and m: "m \<in> set Ls" and lm: "l \<noteq> m"
  shows "\<exists>s'. PushBackList l m s = Some s' \<and> wf_lists s' Ls (C(l := C l @ C m, m := []))"
proof -
  have il: "is_list s l (C l)" and im: "is_list s m (C m)"
    using wf l m by (simp_all add: wf_lists_def)
  have d: "set (C l) \<inter> set (C m) = {}"
    using wf l m lm by (auto simp: wf_lists_def)
  from PushBackList_ok [OF il im lm d] obtain s' where
    s': "PushBackList l m s = Some s'" "is_list s' l (C l @ C m)" "is_list s' m []"
    by blast
  have fr: "is_list s' k (C k)" if "k \<in> set Ls" "k \<noteq> l" "k \<noteq> m" for k
    using PushBackList_frame [OF wf_is_list [OF wf that(1)] that(2,3) il im _ _ s'(1)]
      wf_disjoint [OF wf l that(1,2)] wf_disjoint [OF wf m that(1,3)] by simp
  have "wf_lists s' Ls (C(l := C l @ C m, m := []))"
    unfolding wf_lists_def
  proof (intro conjI ballI impI)
    fix j assume "j \<in> set Ls"
    then show "is_list s' j ((C(l := C l @ C m, m := [])) j)"
      using s' fr lm by simp
  next
    fix j k assume jk: "j \<in> set Ls" "k \<in> set Ls" "j \<noteq> k"
    have b: "set (C j) \<inter> set (C k) = {}"
      using wf jk by (auto simp: wf_lists_def)
    have c: "set (C j) \<inter> set (C m) = {}" if "j \<noteq> m"
      using wf jk m that by (auto simp: wf_lists_def)
    have c': "set (C k) \<inter> set (C m) = {}" if "k \<noteq> m"
      using wf jk m that by (auto simp: wf_lists_def)
    have e: "set (C j) \<inter> set (C l) = {}" if "j \<noteq> l"
      using wf jk l that by (auto simp: wf_lists_def)
    have e': "set (C k) \<inter> set (C l) = {}" if "k \<noteq> l"
      using wf jk l that by (auto simp: wf_lists_def)
    show "set ((C(l := C l @ C m, m := [])) j) \<inter> set ((C(l := C l @ C m, m := [])) k) = {}"
      using b c c' e e' jk lm by (auto simp: Int_Un_distrib Int_Un_distrib2)
  qed
  with s'(1) show ?thesis by blast
qed

text \<open>\<^verbatim>\<open>PushBackList\<close> of a list onto itself empties it.\<close>

lemma PushBackList_same_list:
  assumes "is_list s l xs"
  shows "\<exists>s'. PushBackList l l s = Some s' \<and> Empty l s' \<and> is_list s' l []"
  using assms
  by (cases xs rule: rev_cases; cases xs)
     (auto simp: is_list_iff PushBackList_def Let_def path_append Empty_def dest: path_to_Some)

subsection \<open>The claims about the list\<close>

lemma is_list_Front: "is_list s l xs \<Longrightarrow> Front l s = first xs"
  by (cases xs) (simp_all add: is_list_iff Front_def)

lemma is_list_Back: "is_list s l xs \<Longrightarrow> Back l s = first (rev xs)"
  by (cases xs rule: rev_cases) (simp_all add: is_list_iff Back_def path_append)

lemma store1_wf: "wf_lists store1 [10, 20, 30] contents1"
  by (simp add: wf_lists_def is_list_iff contents1_def store1_def store0_def PushBack_def
      SetNext_def SetPrev_def set_head_def set_tail_def Next_def Prev_def Let_def)

lemma store1_lists: "is_list store1 10 [11, 12]" "is_list store1 20 [21, 22]"
  using store1_wf by (simp_all add: wf_lists_def contents1_def)

text \<open>C7: let the lists \<open>Ls\<close> satisfy the invariant with contents \<open>C\<close> (for each list the
  forward traversal from its head and the backward traversal from its tail end and visit
  the same nodes in opposite orders, and no node is in two lists), and let \<open>l\<close> be one of
  them. Then every operation on \<open>l\<close> leaves all the lists satisfying the invariant, with
  the contents of \<open>l\<close> changed as the operation says and those of the other lists
  unchanged: \<^verbatim>\<open>Reset\<close> always; \<^verbatim>\<open>PushFront\<close> and \<^verbatim>\<open>PushBack\<close> of a node \<open>e\<close> that is in
  none of the lists; \<^verbatim>\<open>InsertAfter\<close> and \<^verbatim>\<open>InsertBefore\<close> of such a node at a node \<open>b\<close> of
  \<open>l\<close>; \<^verbatim>\<open>PushBackList\<close> of another list \<open>m\<close>, which returns without a nil dereference
  and leaves \<open>m\<close> empty; \<^verbatim>\<open>Remove\<close> of a node \<open>b\<close> of \<open>l\<close>.\<close>

theorem list_operations_preserve_invariant:
  assumes "wf_lists s Ls C" and "l \<in> set Ls"
  shows "wf_lists (Reset l s) Ls (C(l := [])) \<and>
         ((\<forall>k \<in> set Ls. e \<notin> set (C k)) \<longrightarrow>
            wf_lists (PushFront l e s) Ls (C(l := e # C l)) \<and>
            wf_lists (PushBack l e s) Ls (C(l := C l @ [e])) \<and>
            (b \<in> set (C l) \<longrightarrow>
               wf_lists (InsertAfter l b e s) Ls (C(l := insert_after b e (C l))) \<and>
               wf_lists (InsertBefore l b e s) Ls (C(l := insert_before b e (C l))))) \<and>
         (m \<in> set Ls \<and> l \<noteq> m \<longrightarrow>
            (\<exists>s'. PushBackList l m s = Some s' \<and>
                  wf_lists s' Ls (C(l := C l @ C m, m := [])))) \<and>
         (b \<in> set (C l) \<longrightarrow> wf_lists (Remove l b s) Ls (C(l := remove1 b (C l))))"
proof (intro conjI impI)
  show "wf_lists (Reset l s) Ls (C(l := []))"
    by (rule Reset_wf [OF assms])
next
  assume "\<forall>k \<in> set Ls. e \<notin> set (C k)"
  then have fresh: "e \<notin> set (C k)" if "k \<in> set Ls" for k
    using that by blast
  show "wf_lists (PushFront l e s) Ls (C(l := e # C l))"
    by (rule PushFront_wf [OF assms fresh])
  show "wf_lists (PushBack l e s) Ls (C(l := C l @ [e]))"
    by (rule PushBack_wf [OF assms fresh])
  assume b: "b \<in> set (C l)"
  show "wf_lists (InsertAfter l b e s) Ls (C(l := insert_after b e (C l)))"
    by (rule InsertAfter_wf [OF assms fresh b])
  show "wf_lists (InsertBefore l b e s) Ls (C(l := insert_before b e (C l)))"
    by (rule InsertBefore_wf [OF assms fresh b])
next
  assume "m \<in> set Ls \<and> l \<noteq> m"
  then show "\<exists>s'. PushBackList l m s = Some s' \<and> wf_lists s' Ls (C(l := C l @ C m, m := []))"
    using PushBackList_wf [OF assms] by blast
next
  assume "b \<in> set (C l)"
  then show "wf_lists (Remove l b s) Ls (C(l := remove1 b (C l)))"
    by (rule Remove_wf [OF assms])
qed

theorem list_operations_preserve_invariant_witness:
  "wf_lists store1 [10, 20, 30] contents1 \<and> (10::nat) \<in> set [10, 20, 30] \<and>
   40 \<notin> set (contents1 10) \<and> 40 \<notin> set (contents1 20) \<and> 40 \<notin> set (contents1 30) \<and>
   12 \<in> set (contents1 10) \<and> (20::nat) \<in> set [10, 20, 30] \<and> (10::nat) \<noteq> 20 \<and>
   wf_lists (Reset 10 store1) [10, 20, 30] (contents1(10 := [])) \<and>
   wf_lists (PushFront 10 40 store1) [10, 20, 30] (contents1(10 := [40, 11, 12])) \<and>
   wf_lists (PushBack 10 40 store1) [10, 20, 30] (contents1(10 := [11, 12, 40])) \<and>
   wf_lists (InsertAfter 10 12 40 store1) [10, 20, 30] (contents1(10 := [11, 12, 40])) \<and>
   wf_lists (InsertBefore 10 12 40 store1) [10, 20, 30] (contents1(10 := [11, 40, 12])) \<and>
   (\<exists>s'. PushBackList 10 20 store1 = Some s' \<and>
      wf_lists s' [10, 20, 30] (contents1(10 := [11, 12, 21, 22], 20 := []))) \<and>
   wf_lists (Remove 10 12 store1) [10, 20, 30] (contents1(10 := [11]))"
proof -
  have h1: "wf_lists store1 [10, 20, 30] contents1" by (rule store1_wf)
  have h2: "(10::nat) \<in> set [10, 20, 30]" by simp
  have h3: "\<forall>k \<in> set [10, 20, 30]. 40 \<notin> set (contents1 k)" by (simp add: contents1_def)
  have h4: "12 \<in> set (contents1 10)" by (simp add: contents1_def)
  have h5: "(20::nat) \<in> set [10, 20, 30] \<and> (10::nat) \<noteq> 20" by simp
  have c: "contents1 10 = [11, 12]" "contents1 20 = [21, 22]" by (simp_all add: contents1_def)
  from list_operations_preserve_invariant [OF h1 h2, of 40 12 20] h3 h4 h5
  show ?thesis using h1 by (simp add: c)
qed

text \<open>C8: for two different lists \<open>A\<close> and \<open>B\<close> that share no node, holding \<open>xs\<close> and
  \<open>ys\<close> (either may be empty), \<^verbatim>\<open>PushBackList(B)\<close> on \<open>A\<close> returns, and afterwards \<open>A\<close>
  holds \<open>xs\<close> followed by \<open>ys\<close>, in order, and \<open>B\<close> is empty: its head and tail are
  nil.\<close>

theorem PushBackList_appends_and_empties:
  assumes "is_list s A xs" and "is_list s B ys" and "A \<noteq> B" and "set xs \<inter> set ys = {}"
  shows "\<exists>s'. PushBackList A B s = Some s' \<and>
           is_list s' A (xs @ ys) \<and> traverse (Next s') (Front A s') = Some (xs @ ys) \<and>
           is_list s' B [] \<and> Empty B s' \<and> Front B s' = None \<and> Back B s' = None"
proof -
  from PushBackList_ok [OF assms] obtain s' where
    s': "PushBackList A B s = Some s'" "is_list s' A (xs @ ys)" "is_list s' B []"
    by blast
  have "traverse (Next s') (Front A s') = Some (xs @ ys)"
    using s'(2) by (simp add: is_list_def)
  moreover have "Front B s' = None" "Back B s' = None"
    using is_list_Front [OF s'(3)] is_list_Back [OF s'(3)] by simp_all
  moreover from this have "Empty B s'" by (simp add: Empty_def Front_def)
  ultimately show ?thesis using s' by blast
qed

theorem PushBackList_appends_and_empties_witness:
  "is_list store1 10 [11, 12] \<and> is_list store1 20 [21, 22] \<and> (10::nat) \<noteq> 20 \<and>
   set [11, 12] \<inter> set [21, 22] = ({} :: nat set) \<and>
   (\<exists>s'. PushBackList 10 20 store1 = Some s' \<and>
      is_list s' 10 [11, 12, 21, 22] \<and>
      traverse (Next s') (Front 10 s') = Some [11, 12, 21, 22] \<and>
      is_list s' 20 [] \<and> Empty 20 s' \<and> Front 20 s' = None \<and> Back 20 s' = None)"
proof -
  have h3: "(10::nat) \<noteq> 20" by simp
  have h4: "set [11, 12] \<inter> set [21, 22] = ({} :: nat set)" by simp
  from PushBackList_appends_and_empties [OF store1_lists h3 h4]
  show ?thesis using store1_lists by simp
qed

text \<open>C9: for a node \<open>x\<close> of list \<open>l\<close>, after \<^verbatim>\<open>Remove(x)\<close> the forward traversal from
  \<^verbatim>\<open>Front()\<close> ends and visits the other nodes in their old order, and never \<open>x\<close>;
  \<^verbatim>\<open>Front()\<close> and \<^verbatim>\<open>Back()\<close> are the first and the last of the remaining nodes (so they
  move when \<open>x\<close> was the head or the tail), and the list is empty exactly when \<open>x\<close> was
  its only node.\<close>

theorem Remove_unlinks_member:
  assumes "is_list s l xs" and "x \<in> set xs"
  shows "is_list (Remove l x s) l (remove1 x xs) \<and>
         traverse (Next (Remove l x s)) (Front l (Remove l x s)) = Some (remove1 x xs) \<and>
         x \<notin> set (remove1 x xs) \<and>
         Front l (Remove l x s) = first (remove1 x xs) \<and>
         Back l (Remove l x s) = first (rev (remove1 x xs)) \<and>
         Empty l (Remove l x s) = (xs = [x])"
proof -
  from assms(2) obtain us vs where sp: "xs = us @ x # vs" "x \<notin> set us"
    by (auto dest: split_list_first)
  have d: "distinct xs" using assms(1) by (simp add: is_list_def)
  have eq: "remove1 x xs = us @ vs" using sp by (simp add: remove1_split)
  have il: "is_list (Remove l x s) l (remove1 x xs)"
    using Remove_ok [of s l us x vs] assms(1) sp eq by simp
  have notin: "x \<notin> set (remove1 x xs)" using d by simp
  have emp: "Empty l (Remove l x s) = (xs = [x])"
    using is_list_Front [OF il] sp eq
    by (cases us; cases vs) (simp_all add: Empty_def Front_def)
  show ?thesis
    using il notin emp is_list_Front [OF il] is_list_Back [OF il]
    by (simp add: is_list_def)
qed

theorem Remove_unlinks_member_witness:
  "is_list store1 10 [11, 12] \<and> (11::nat) \<in> set [11, 12] \<and>
   is_list (Remove 10 11 store1) 10 [12] \<and>
   traverse (Next (Remove 10 11 store1)) (Front 10 (Remove 10 11 store1)) = Some [12] \<and>
   Front 10 (Remove 10 11 store1) = Some 12 \<and>
   Back 10 (Remove 10 11 store1) = Some 12 \<and>
   \<not> Empty 10 (Remove 10 11 store1)"
proof -
  have h2: "(11::nat) \<in> set [11, 12]" by simp
  from Remove_unlinks_member [OF store1_lists(1) h2]
  show ?thesis using store1_lists(1) by auto
qed

end
